theory Spec2Isabelle
  imports Complex_Main "HOL-Library.Multiset"
begin

section \<open>Data model of the evaluator\<close>

text \<open>
  The evaluator of \<^verbatim>\<open>evaluator.py\<close> scores a solution of the production and
  transportation scheduling problem. An instance is a list of location dictionaries
  (keys \<^verbatim>\<open>x\<close>, \<^verbatim>\<open>y\<close>, \<^verbatim>\<open>demand\<close>), a solution is a list of routes, a route a
  list of batches, a batch a list of customer indices.

  Python's numbers are modelled as follows: list indices and customer indices are
  unbounded integers (\<^typ>\<open>int\<close>); coordinates, demands, capacity, lifespan, rate and all
  times are \<^typ>\<open>real\<close>, so the arithmetic of the model is exact where the
  program computes in binary floating point. Only the two tolerance tests, whose
  outcome at the boundary is decided by the rounding of a sum, are modelled a second time
  in double precision, in a section of their own. Exceptions are values of type
  \<open>fault\<close>; the string sentinel \<^verbatim>\<open>'inf'\<close> is the constructor \<open>INF_RETURN\<close>.
  The two printing switches of \<^verbatim>\<open>evaluate\<close> only write to the console and are left out.
\<close>

datatype fault = AssertionError | IndexError | KeyError | ZeroDivisionError

datatype outcome = Makespan real | INF_RETURN

type_synonym location = "string \<rightharpoonup> real"

definition EPS_VALUE :: real where
  "EPS_VALUE = 1 / 1000000"

text \<open>Subscripting a Python list with an integer: negative indices count from the end.\<close>

definition subscript :: "'a list \<Rightarrow> int \<Rightarrow> fault + 'a" where
  "subscript xs i =
     (if 0 \<le> i \<and> i < int (length xs) then Inr (xs ! nat i)
      else if i < 0 \<and> - int (length xs) \<le> i then Inr (xs ! nat (int (length xs) + i))
      else Inl IndexError)"

text \<open>Subscripting a dictionary with a key.\<close>

definition item :: "location \<Rightarrow> string \<Rightarrow> fault + real" where
  "item d key = (case d key of None \<Rightarrow> Inl KeyError | Some v \<Rightarrow> Inr v)"

section \<open>Travel time\<close>

text \<open>\<^verbatim>\<open>get_travel_time\<close>, lines 19 to 42: four assertions, then the distance.\<close>

definition get_travel_time ::
  "location list \<Rightarrow> int \<Rightarrow> int \<Rightarrow> (real \<Rightarrow> real) option \<Rightarrow> fault + real" where
  "get_travel_time locations loc_a loc_b rounding_func =
     (if \<not> (0 \<le> loc_a \<and> loc_a < int (length locations)) then Inl AssertionError
      else if \<not> (0 \<le> loc_b \<and> loc_b < int (length locations)) then Inl AssertionError
      else if \<not> list_all (\<lambda>key. key \<in> dom (locations ! nat loc_a)) [''x'', ''y'']
        then Inl AssertionError
      else if \<not> list_all (\<lambda>key. key \<in> dom (locations ! nat loc_b)) [''x'', ''y'']
        then Inl AssertionError
      else
        let dist = sqrt ((the ((locations ! nat loc_a) ''x'') - the ((locations ! nat loc_b) ''x''))\<^sup>2
                       + (the ((locations ! nat loc_a) ''y'') - the ((locations ! nat loc_b) ''y''))\<^sup>2)
        in (case rounding_func of None \<Rightarrow> Inr dist | Some f \<Rightarrow> Inr (f dist)))"

section \<open>Coverage check\<close>

text \<open>
  Lines 67 to 82 of \<^verbatim>\<open>evaluate\<close>: the customers of all batches of all routes are
  collected and sorted, their number is compared with the number of customers, and the
  sorted list is compared position by position with \<open>nplants, nplants + 1, \<dots>\<close>.
\<close>

definition visited_customers :: "int list list list \<Rightarrow> int list" where
  "visited_customers solution = sort (concat (concat solution))"

fun customers_in_order :: "int list \<Rightarrow> int \<Rightarrow> bool" where
  "customers_in_order [] k = True"
| "customers_in_order (v # vs) k = (if v \<noteq> k then False else customers_in_order vs (k + 1))"

definition check_customers :: "location list \<Rightarrow> int list list list \<Rightarrow> bool" where
  "check_customers locations solution =
     (let nplants = int (length solution);
          visited = visited_customers solution
      in if int (length visited) \<noteq> int (length locations) - nplants then False
         else customers_in_order visited nplants)"

section \<open>Simulation of one route\<close>

text \<open>Line 95: the demands of a batch are looked up and added in order.\<close>

fun batch_demand :: "location list \<Rightarrow> int list \<Rightarrow> fault + real" where
  "batch_demand locations [] = Inr 0"
| "batch_demand locations (c # cs) =
     (case subscript locations c of
        Inl e \<Rightarrow> Inl e
      | Inr l \<Rightarrow>
          (case item l ''demand'' of
             Inl e \<Rightarrow> Inl e
           | Inr d \<Rightarrow>
               (case batch_demand locations cs of
                  Inl e \<Rightarrow> Inl e
                | Inr s \<Rightarrow> Inr (d + s))))"

text \<open>Line 105: the legs between consecutive customers of the batch.\<close>

fun inner_legs :: "location list \<Rightarrow> int list \<Rightarrow> (real \<Rightarrow> real) option \<Rightarrow> fault + real" where
  "inner_legs locations (a # b # cs) rounding_func =
     (case get_travel_time locations a b rounding_func of
        Inl e \<Rightarrow> Inl e
      | Inr t \<Rightarrow>
          (case inner_legs locations (b # cs) rounding_func of
             Inl e \<Rightarrow> Inl e
           | Inr s \<Rightarrow> Inr (t + s)))"
| "inner_legs locations cs rounding_func = Inr 0"

text \<open>Lines 104 and 105: the time from the plant to the last customer of the batch.\<close>

definition outbound_time ::
  "location list \<Rightarrow> int \<Rightarrow> int list \<Rightarrow> (real \<Rightarrow> real) option \<Rightarrow> fault + real" where
  "outbound_time locations plant batch rounding_func =
     (case subscript batch 0 of
        Inl e \<Rightarrow> Inl e
      | Inr c \<Rightarrow>
          (case get_travel_time locations plant c rounding_func of
             Inl e \<Rightarrow> Inl e
           | Inr t \<Rightarrow>
               (case inner_legs locations batch rounding_func of
                  Inl e \<Rightarrow> Inl e
                | Inr s \<Rightarrow> Inr (t + s))))"

text \<open>
  The body of the loop over the batches of a route, lines 95 to 132. It either raises,
  returns \<^verbatim>\<open>INF_RETURN\<close> from \<^verbatim>\<open>evaluate\<close>, or sets
  \<^verbatim>\<open>curr_p_finish\<close> and \<^verbatim>\<open>curr_t_finish\<close> for the next batch.
\<close>

datatype step = Return_INF | Next real real

definition batch_step ::
  "location list \<Rightarrow> real \<Rightarrow> real \<Rightarrow> real \<Rightarrow> (real \<Rightarrow> real) option \<Rightarrow> bool \<Rightarrow>
     int \<Rightarrow> int list \<Rightarrow> real \<Rightarrow> real \<Rightarrow> fault + step" where
  "batch_step locations capacity lifespan rate rounding_func check_feasibility
     plant batch curr_p_finish curr_t_finish =
     (case batch_demand locations batch of
        Inl e \<Rightarrow> Inl e
      | Inr demand \<Rightarrow>
          if check_feasibility \<and> capacity + EPS_VALUE \<le> demand then Inr Return_INF
          else if rate = 0 then Inl ZeroDivisionError
          else
            let p_time = demand / rate in
            (case outbound_time locations plant batch rounding_func of
               Inl e \<Rightarrow> Inl e
             | Inr t_out \<Rightarrow>
                 if check_feasibility \<and> lifespan + EPS_VALUE \<le> t_out then Inr Return_INF
                 else
                   let max_delay = max 0 (lifespan - t_out) in
                   (case subscript batch (- 1) of
                      Inl e \<Rightarrow> Inl e
                    | Inr c \<Rightarrow>
                        (case get_travel_time locations c plant rounding_func of
                           Inl e \<Rightarrow> Inl e
                         | Inr t_back \<Rightarrow>
                             let t_time = t_out + t_back;
                                 earliest_p_finish = curr_p_finish + p_time
                             in if curr_t_finish \<le> earliest_p_finish
                                then Inr (Next (curr_p_finish + p_time)
                                               (curr_p_finish + p_time + t_time))
                                else Inr (Next (max earliest_p_finish (curr_t_finish - max_delay))
                                               (curr_t_finish + t_time))))))"

text \<open>
  The loop over the batches of one route, lines 91 to 132: \<open>None\<close> when a batch made
  \<^verbatim>\<open>evaluate\<close> return \<^verbatim>\<open>INF_RETURN\<close>, otherwise the last \<^verbatim>\<open>curr_t_finish\<close>.
\<close>

fun route_loop ::
  "location list \<Rightarrow> real \<Rightarrow> real \<Rightarrow> real \<Rightarrow> (real \<Rightarrow> real) option \<Rightarrow> bool \<Rightarrow>
     int \<Rightarrow> int list list \<Rightarrow> real \<Rightarrow> real \<Rightarrow> fault + real option" where
  "route_loop locations capacity lifespan rate rounding_func check_feasibility
     plant [] curr_p_finish curr_t_finish = Inr (Some curr_t_finish)"
| "route_loop locations capacity lifespan rate rounding_func check_feasibility
     plant (batch # batches) curr_p_finish curr_t_finish =
     (case batch_step locations capacity lifespan rate rounding_func check_feasibility
             plant batch curr_p_finish curr_t_finish of
        Inl e \<Rightarrow> Inl e
      | Inr Return_INF \<Rightarrow> Inr None
      | Inr (Next next_p_finish next_t_finish) \<Rightarrow>
          route_loop locations capacity lifespan rate rounding_func check_feasibility
            plant batches next_p_finish next_t_finish)"

section \<open>Evaluation of a solution\<close>

text \<open>The loop over the plants, lines 87 to 134, with the running \<^verbatim>\<open>makespan\<close>.\<close>

fun plants_loop ::
  "location list \<Rightarrow> real \<Rightarrow> real \<Rightarrow> real \<Rightarrow> (real \<Rightarrow> real) option \<Rightarrow> bool \<Rightarrow>
     nat \<Rightarrow> int list list list \<Rightarrow> real \<Rightarrow> fault + outcome" where
  "plants_loop locations capacity lifespan rate rounding_func check_feasibility
     plant [] makespan = Inr (Makespan makespan)"
| "plants_loop locations capacity lifespan rate rounding_func check_feasibility
     plant (route # routes) makespan =
     (case route_loop locations capacity lifespan rate rounding_func check_feasibility
             (int plant) route 0 0 of
        Inl e \<Rightarrow> Inl e
      | Inr None \<Rightarrow> Inr INF_RETURN
      | Inr (Some curr_t_finish) \<Rightarrow>
          plants_loop locations capacity lifespan rate rounding_func check_feasibility
            (Suc plant) routes (max makespan curr_t_finish))"

definition evaluate ::
  "location list \<Rightarrow> real \<Rightarrow> real \<Rightarrow> real \<Rightarrow> int list list list \<Rightarrow>
     (real \<Rightarrow> real) option \<Rightarrow> bool \<Rightarrow> fault + outcome" where
  "evaluate locations capacity lifespan rate solution rounding_func check_feasibility =
     (if check_feasibility \<and> \<not> check_customers locations solution then Inr INF_RETURN
      else plants_loop locations capacity lifespan rate rounding_func check_feasibility
             0 solution 0)"

section \<open>The tolerance tests in double precision\<close>

text \<open>
  The outcome of the two tests \<^verbatim>\<open>capacity + EPS_VALUE <= p_time\<close> (line 97) and
  \<^verbatim>\<open>lifespan + EPS_VALUE <= t_time\<close> (line 107) at the boundary depends on how the
  sum on the left is rounded, so the two tests are modelled a second time in the
  arithmetic of the program. A Python float is an IEEE 754 double: a real number
  \<open>m \<sdot> 2\<^sup>e\<close> with an integer \<open>m\<close> of at most 53 bits. The result of an addition is
  the exact sum rounded to the nearest double, a tie going to the even mantissa; the
  comparison of two doubles is exact.

  \<open>round_even\<close> rounds a real to the nearest integer, ties to even. \<open>binade x\<close> is
  the exponent \<open>e\<close> with \<open>2\<^sup>e \<le> \<bar>x\<bar> < 2\<^sup>e\<^sup>+\<^sup>1\<close>, \<open>ulp x\<close> the spacing of the doubles
  there (\<open>2\<^sup>-\<^sup>1\<^sup>0\<^sup>7\<^sup>4\<close> below the normal range), and \<open>double_round x\<close> the double
  nearest to \<open>x\<close>; it describes the result of the program as long as that is finite,
  that is below \<open>2\<^sup>1\<^sup>0\<^sup>2\<^sup>4\<close> in absolute value.
\<close>

definition round_even :: "real \<Rightarrow> int" where
  "round_even y =
     (let f = \<lfloor>y\<rfloor>; r = y - of_int f
      in if r < 1 / 2 then f else if 1 / 2 < r then f + 1 else if even f then f else f + 1)"







section \<open>Reference notions\<close>

text \<open>
  Notions taken from the description of the evaluator, against which the functions above
  are compared. A location index is usable when it lies in the list and the location has
  both coordinates; the distance is the Euclidean one of the plane; the rounding
  transform is optional.
\<close>

definition located :: "location list \<Rightarrow> int \<Rightarrow> bool" where
  "located locations i \<longleftrightarrow>
     0 \<le> i \<and> i < int (length locations) \<and>
     ''x'' \<in> dom (locations ! nat i) \<and> ''y'' \<in> dom (locations ! nat i)"

definition euclidean :: "location \<Rightarrow> location \<Rightarrow> real" where
  "euclidean l1 l2 =
     dist (Complex (the (l1 ''x'')) (the (l1 ''y''))) (Complex (the (l2 ''x'')) (the (l2 ''y'')))"

definition rounded :: "(real \<Rightarrow> real) option \<Rightarrow> real \<Rightarrow> real" where
  "rounded rounding_func d = (case rounding_func of None \<Rightarrow> d | Some f \<Rightarrow> f d)"

text \<open>
  One leg of a trip, and the outbound time of a batch as the description states it: the
  leg from the plant to the first customer and the legs between consecutive customers,
  each rounded on its own, added up.
\<close>

definition leg :: "location list \<Rightarrow> (real \<Rightarrow> real) option \<Rightarrow> int \<Rightarrow> int \<Rightarrow> real" where
  "leg locations rounding_func a b =
     rounded rounding_func (euclidean (locations ! nat a) (locations ! nat b))"

definition outbound_legs ::
  "location list \<Rightarrow> (real \<Rightarrow> real) option \<Rightarrow> int \<Rightarrow> int list \<Rightarrow> real" where
  "outbound_legs locations rounding_func plant batch =
     sum_list (map (\<lambda>(a, b). leg locations rounding_func a b) (zip (plant # batch) batch))"

text \<open>
  Two conditions on the input taken from the description of the data: a rounding
  transform keeps a distance non-negative (the identity, the floor and rounding to some
  decimals do), and no location has a negative demand.
\<close>

definition nonneg_rounding :: "(real \<Rightarrow> real) option \<Rightarrow> bool" where
  "nonneg_rounding rounding_func \<longleftrightarrow>
     (case rounding_func of None \<Rightarrow> True | Some f \<Rightarrow> \<forall>x\<ge>0. 0 \<le> f x)"

definition nonneg_demands :: "location list \<Rightarrow> bool" where
  "nonneg_demands locations \<longleftrightarrow>
     list_all (\<lambda>l. case l ''demand'' of None \<Rightarrow> True | Some d \<Rightarrow> 0 \<le> d) locations"

section \<open>Example instances\<close>

definition plant0 :: location where
  "plant0 = [''x'' \<mapsto> 0, ''y'' \<mapsto> 0, ''demand'' \<mapsto> 0]"

definition cust34 :: location where
  "cust34 = [''x'' \<mapsto> 3, ''y'' \<mapsto> 4, ''demand'' \<mapsto> 10]"

definition plant68 :: location where
  "plant68 = [''x'' \<mapsto> 6, ''y'' \<mapsto> 8, ''demand'' \<mapsto> 0]"

definition cust20 :: location where
  "cust20 = [''x'' \<mapsto> 3, ''y'' \<mapsto> 4, ''demand'' \<mapsto> 20]"

section \<open>Basic facts\<close>

lemma subscript_first: "subscript (x # xs) 0 = Inr x"
  by (simp add: subscript_def)

lemma subscript_last: "xs \<noteq> [] \<Longrightarrow> subscript xs (- 1) = Inr (last xs)"
  by (cases xs rule: rev_cases) (auto simp: subscript_def nth_append)

lemma subscript_empty: "subscript [] i = Inl IndexError"
  by (simp add: subscript_def)

lemma euclidean_sqrt:
  "euclidean l1 l2 =
     sqrt ((the (l1 ''x'') - the (l2 ''x''))\<^sup>2 + (the (l1 ''y'') - the (l2 ''y''))\<^sup>2)"
  by (simp add: euclidean_def dist_norm cmod_def)

lemma euclidean_nonneg: "0 \<le> euclidean l1 l2"
  by (simp add: euclidean_def)

lemma get_travel_time_eq:
  "get_travel_time locations a b rounding_func =
     (if located locations a \<and> located locations b
      then Inr (rounded rounding_func (euclidean (locations ! nat a) (locations ! nat b)))
      else Inl AssertionError)"
  by (auto simp: get_travel_time_def located_def euclidean_sqrt rounded_def Let_def
           split: option.splits)

lemma sqrt_25: "sqrt 25 = 5"
  using real_sqrt_abs [of 5] by simp

lemma located_example: "located [plant0, cust34] 0" "located [plant0, cust34] 1"
  by (simp_all add: located_def plant0_def cust34_def)

lemma not_located_example: "\<not> located [plant0, cust34] 2"
  by (simp add: located_def)

lemma euclidean_example: "euclidean plant0 cust34 = 5" "euclidean cust34 plant0 = 5"
  by (simp_all add: euclidean_sqrt plant0_def cust34_def sqrt_25)

lemma travel_example:
  "get_travel_time [plant0, cust34] 0 1 None = Inr 5"
  "get_travel_time [plant0, cust34] 1 0 None = Inr 5"
  by (simp_all add: get_travel_time_eq located_example euclidean_example rounded_def)

lemma check_customers_example: "check_customers [plant0, cust34] [[[1]]]"
  by (simp add: check_customers_def visited_customers_def)

lemma batch_demand_example: "batch_demand [plant0, cust34] [1] = Inr 10"
  by (simp add: subscript_def item_def cust34_def)

lemma outbound_example: "outbound_time [plant0, cust34] 0 [1] None = Inr 5"
  by (simp add: outbound_time_def subscript_first travel_example)

lemma get_travel_time_leg:
  "get_travel_time locations a b rf =
     (if located locations a \<and> located locations b then Inr (leg locations rf a b)
      else Inl AssertionError)"
  by (simp add: get_travel_time_eq leg_def)

lemma inner_legs_eq:
  "inner_legs locations batch rf =
     (if list_all (located locations) batch \<or> length batch \<le> 1
      then Inr (sum_list (map (\<lambda>(a, b). leg locations rf a b) (zip batch (tl batch))))
      else Inl AssertionError)"
proof (induction locations batch rf rule: inner_legs.induct)
  case (1 locations a b cs rf)
  then show ?case
    by (auto simp: get_travel_time_leg)
qed simp_all

lemma outbound_time_eq:
  "outbound_time locations plant batch rf =
     (if batch = [] then Inl IndexError
      else if located locations plant \<and> list_all (located locations) batch
        then Inr (outbound_legs locations rf plant batch)
      else Inl AssertionError)"
proof (cases batch)
  case Nil
  then show ?thesis by (simp add: outbound_time_def subscript_empty)
next
  case (Cons c cs)
  then show ?thesis
    by (auto simp: outbound_time_def subscript_first get_travel_time_leg inner_legs_eq
          outbound_legs_def)
qed

lemma batch_step_eq:
  "batch_step locations capacity lifespan rate rf chk plant batch cp ct =
     (case batch_demand locations batch of
        Inl e \<Rightarrow> Inl e
      | Inr d \<Rightarrow>
          if chk \<and> capacity + EPS_VALUE \<le> d then Inr Return_INF
          else if rate = 0 then Inl ZeroDivisionError
          else if batch = [] then Inl IndexError
          else if \<not> (located locations plant \<and> list_all (located locations) batch)
            then Inl AssertionError
          else if chk \<and> lifespan + EPS_VALUE \<le> outbound_legs locations rf plant batch
            then Inr Return_INF
          else Inr (Next
            (max (cp + d / rate) (ct - max 0 (lifespan - outbound_legs locations rf plant batch)))
            (max ct (cp + d / rate) +
               (outbound_legs locations rf plant batch + leg locations rf (last batch) plant))))"
proof -
  have last_located: "located locations (last batch)"
    if "batch \<noteq> []" "list_all (located locations) batch"
    using that by (simp add: list_all_iff)
  show ?thesis
    unfolding batch_step_def outbound_time_eq
    by (auto simp: Let_def subscript_last get_travel_time_leg last_located max_def
          split: sum.splits)
qed

lemma leg_example:
  "leg [plant0, cust34] None 0 1 = 5" "leg [plant0, cust34] None 1 0 = 5"
  by (simp_all add: leg_def rounded_def euclidean_example)

lemma outbound_legs_example: "outbound_legs [plant0, cust34] None 0 [1] = 5"
  by (simp add: outbound_legs_def leg_example)

section \<open>Travel time: faults and value\<close>

text \<open>
  C9. \<^verbatim>\<open>get_travel_time\<close> fails with an assertion error, and returns nothing, when one
  of the two indices is outside the list of locations or one of the two locations has
  no \<^verbatim>\<open>x\<close> or no \<^verbatim>\<open>y\<close>. Otherwise it returns the Euclidean distance of the two
  locations, unchanged when no rounding function is given and passed through the rounding
  function when one is given.
\<close>

theorem get_travel_time_contract:
  "(\<not> (located locations a \<and> located locations b) \<longrightarrow>
      get_travel_time locations a b rounding_func = Inl AssertionError) \<and>
   (located locations a \<and> located locations b \<longrightarrow>
      get_travel_time locations a b None =
        Inr (euclidean (locations ! nat a) (locations ! nat b)) \<and>
      (\<forall>f. get_travel_time locations a b (Some f) =
        Inr (f (euclidean (locations ! nat a) (locations ! nat b)))))"
  by (simp add: get_travel_time_eq rounded_def)

theorem get_travel_time_contract_witness:
  "located [plant0, cust34] 0 \<and> located [plant0, cust34] 1 \<and>
   get_travel_time [plant0, cust34] 0 1 None = Inr 5 \<and>
   get_travel_time [plant0, cust34] 0 1 (Some (\<lambda>x. x / 2)) = Inr (5 / 2) \<and>
   \<not> located [plant0, cust34] 2 \<and>
   get_travel_time [plant0, cust34] 0 2 None = Inl AssertionError"
  using get_travel_time_contract [of "[plant0, cust34]" 0 1 None]
        get_travel_time_contract [of "[plant0, cust34]" 0 2 None]
  by (simp add: located_example not_located_example euclidean_example)

section \<open>The single customer example\<close>

text \<open>
  C8. One plant at (0,0), one customer at (3,4) with demand 10, the customer alone in the
  only batch of the only route, capacity 20, lifespan 100, rate 1, no rounding function:
  \<^verbatim>\<open>evaluate\<close> returns 20, that is 10 for the production, 5 to the customer and 5 back.
\<close>

theorem evaluate_single_customer:
  "evaluate [plant0, cust34] 20 100 1 [[[1]]] None True = Inr (Makespan 20)"
proof -
  have "batch_step [plant0, cust34] 20 100 1 None True 0 [1] 0 0 = Inr (Next 10 20)"
    by (simp add: batch_step_def batch_demand_example outbound_example subscript_last
          travel_example EPS_VALUE_def del: batch_demand.simps)
  then show ?thesis
    by (simp add: evaluate_def check_customers_example)
qed

section \<open>The step of one batch\<close>

text \<open>
  C1. For every batch of a route the two timelines are merged by the two-case rule. With
  \<open>earliest_p_finish = curr_p_finish + p_time\<close>, where \<open>p_time\<close> is the demand of the
  batch divided by the rate, \<open>max_delay = max 0 (lifespan - t_out)\<close> and \<open>t_full\<close> the
  outbound time plus the leg back to the plant: if \<open>curr_t_finish \<le> earliest_p_finish\<close>
  then \<open>next_p_finish = earliest_p_finish\<close> and \<open>next_t_finish = next_p_finish + t_full\<close>;
  otherwise \<open>next_t_finish = curr_t_finish + t_full\<close> and
  \<open>next_p_finish = max earliest_p_finish (curr_t_finish - max_delay)\<close>. The step yields
  these two values exactly when the demand, the outbound time and the leg back are
  computed without a fault, the rate is not zero and no enabled check fires.
\<close>

theorem timeline_merge_rule:
  "batch_step locations capacity lifespan rate rf chk plant batch cp ct = Inr (Next np nt) \<longleftrightarrow>
     (\<exists>d t_out t_back.
        batch_demand locations batch = Inr d \<and> \<not> (chk \<and> capacity + EPS_VALUE \<le> d) \<and>
        rate \<noteq> 0 \<and>
        outbound_time locations plant batch rf = Inr t_out \<and>
        \<not> (chk \<and> lifespan + EPS_VALUE \<le> t_out) \<and>
        get_travel_time locations (last batch) plant rf = Inr t_back \<and>
        (let earliest_p_finish = cp + d / rate;
             max_delay = max 0 (lifespan - t_out);
             t_full = t_out + t_back
         in if ct \<le> earliest_p_finish
            then np = earliest_p_finish \<and> nt = np + t_full
            else nt = ct + t_full \<and> np = max earliest_p_finish (ct - max_delay)))"
  (is "?L \<longleftrightarrow> ?R")
proof
  assume l: ?L
  then obtain d where d: "batch_demand locations batch = Inr d"
    by (cases "batch_demand locations batch") (simp_all add: batch_step_eq)
  let ?o = "outbound_legs locations rf plant batch"
  let ?b = "leg locations rf (last batch) plant"
  from l d have c: "\<not> (chk \<and> capacity + EPS_VALUE \<le> d)" "rate \<noteq> 0" "batch \<noteq> []"
    "located locations plant" "list_all (located locations) batch"
    "\<not> (chk \<and> lifespan + EPS_VALUE \<le> ?o)"
    and np: "np = max (cp + d / rate) (ct - max 0 (lifespan - ?o))"
    and nt: "nt = max ct (cp + d / rate) + (?o + ?b)"
    by (simp_all add: batch_step_eq split: if_splits)
  have "located locations (last batch)"
    using c(3,5) by (simp add: list_all_iff)
  then have "outbound_time locations plant batch rf = Inr ?o"
    "get_travel_time locations (last batch) plant rf = Inr ?b"
    using c by (simp_all add: outbound_time_eq get_travel_time_leg)
  moreover have "if ct \<le> cp + d / rate
     then np = cp + d / rate \<and> nt = np + (?o + ?b)
     else nt = ct + (?o + ?b) \<and> np = max (cp + d / rate) (ct - max 0 (lifespan - ?o))"
    using np nt by (simp add: max_def)
  ultimately show ?R
    using d c by (simp add: Let_def)
next
  assume ?R
  then obtain d t_out t_back where d: "batch_demand locations batch = Inr d"
    and c: "\<not> (chk \<and> capacity + EPS_VALUE \<le> d)" "rate \<noteq> 0"
    and o: "outbound_time locations plant batch rf = Inr t_out"
    and l: "\<not> (chk \<and> lifespan + EPS_VALUE \<le> t_out)"
    and b: "get_travel_time locations (last batch) plant rf = Inr t_back"
    and m: "if ct \<le> cp + d / rate
       then np = cp + d / rate \<and> nt = np + (t_out + t_back)
       else nt = ct + (t_out + t_back) \<and> np = max (cp + d / rate) (ct - max 0 (lifespan - t_out))"
    by (auto simp: Let_def)
  from o have o': "batch \<noteq> []" "located locations plant" "list_all (located locations) batch"
    "outbound_legs locations rf plant batch = t_out"
    by (simp_all add: outbound_time_eq split: if_splits)
  from b have b': "leg locations rf (last batch) plant = t_back"
    by (simp add: get_travel_time_leg split: if_splits)
  from m have "np = max (cp + d / rate) (ct - max 0 (lifespan - t_out))"
    "nt = max ct (cp + d / rate) + (t_out + t_back)"
    by (simp_all add: max_def split: if_splits)
  then show ?L
    using d c l o' b' by (simp add: batch_step_eq)
qed

theorem timeline_merge_rule_witness:
  "batch_step [plant0, cust34] 20 100 1 None True 0 [1] 0 0 = Inr (Next 10 20) \<and>
   batch_step [plant0, cust34] 20 8 1 None True 0 [1] 0 50 = Inr (Next 47 60)"
  using timeline_merge_rule [of "[plant0, cust34]" 20 100 1 None True 0 "[1]" 0 0 10 20]
        timeline_merge_rule [of "[plant0, cust34]" 20 8 1 None True 0 "[1]" 0 50 47 60]
  by (simp add: batch_demand_example outbound_example travel_example EPS_VALUE_def
        del: batch_demand.simps)

text \<open>
  C5. The lifespan check looks at the outbound time only: the leg from the plant to the
  first customer plus the legs between consecutive customers, each rounded on its own.
  The leg from the last customer back to the plant takes no part in the check; it is
  added afterwards and counts in the time at which the vehicle is back.
\<close>

theorem lifespan_check_outbound_only:
  assumes "batch_demand locations batch = Inr d"
    and "\<not> (chk \<and> capacity + EPS_VALUE \<le> d)"
    and "rate \<noteq> 0"
    and "batch \<noteq> []"
    and "located locations plant"
    and "list_all (located locations) batch"
  shows "outbound_time locations plant batch rf = Inr (outbound_legs locations rf plant batch) \<and>
    get_travel_time locations (last batch) plant rf = Inr (leg locations rf (last batch) plant) \<and>
    (batch_step locations capacity lifespan rate rf chk plant batch cp ct = Inr Return_INF
       \<longleftrightarrow> chk \<and> lifespan + EPS_VALUE \<le> outbound_legs locations rf plant batch) \<and>
    (\<not> (chk \<and> lifespan + EPS_VALUE \<le> outbound_legs locations rf plant batch) \<longrightarrow>
       (\<exists>np. batch_step locations capacity lifespan rate rf chk plant batch cp ct =
          Inr (Next np (max ct (cp + d / rate) +
                 (outbound_legs locations rf plant batch
                    + leg locations rf (last batch) plant)))))"
proof -
  have "located locations (last batch)"
    using assms(4,6) by (simp add: list_all_iff)
  then show ?thesis
    using assms unfolding batch_step_eq outbound_time_eq get_travel_time_leg
    by auto
qed

theorem lifespan_check_outbound_only_witness:
  "batch_demand [plant0, cust34] [1] = Inr 10 \<and>
   located [plant0, cust34] 0 \<and> list_all (located [plant0, cust34]) [1] \<and>
   outbound_time [plant0, cust34] 0 [1] None = Inr 5 \<and>
   get_travel_time [plant0, cust34] 1 0 None = Inr 5 \<and>
   (\<exists>np. batch_step [plant0, cust34] 20 5 1 None True 0 [1] 0 0 = Inr (Next np 20))"
  using lifespan_check_outbound_only [where locations = "[plant0, cust34]" and batch = "[1]"
          and d = 10 and chk = True and capacity = 20 and rate = 1 and plant = 0 and rf = None
          and lifespan = 5 and cp = 0 and ct = 0]
  by (simp add: batch_demand_example located_example leg_example outbound_legs_example
        EPS_VALUE_def del: batch_demand.simps)

section \<open>Propagation through the loops\<close>

lemma batch_step_unchecked:
  "batch_step locations capacity lifespan rate rf False plant batch cp ct \<noteq> Inr Return_INF"
  by (simp add: batch_step_eq split: sum.splits)

lemma route_loop_unchecked:
  "route_loop locations capacity lifespan rate rf False plant route cp ct \<noteq> Inr None"
proof (induction route arbitrary: cp ct)
  case Nil
  show ?case by simp
next
  case (Cons batch route)
  then show ?case
    using batch_step_unchecked [of locations capacity lifespan rate rf plant batch cp ct]
    by (simp split: sum.splits step.splits)
qed

lemma plants_loop_unchecked:
  "plants_loop locations capacity lifespan rate rf False plant routes makespan \<noteq> Inr INF_RETURN"
proof (induction routes arbitrary: plant makespan)
  case Nil
  show ?case by simp
next
  case (Cons route routes)
  then show ?case
    using route_loop_unchecked [of locations capacity lifespan rate rf "int plant" route 0 0]
    by (simp split: sum.splits option.splits)
qed

lemma batch_step_empty:
  "batch_step locations capacity lifespan rate rf chk plant [] cp ct =
     (if chk \<and> capacity + EPS_VALUE \<le> 0 then Inr Return_INF
      else if rate = 0 then Inl ZeroDivisionError
      else Inl IndexError)"
  by (simp add: batch_step_eq)

lemma route_loop_empty_batch:
  assumes "[] \<in> set route"
  shows "route_loop locations capacity lifespan rate rf chk plant route cp ct \<noteq> Inr (Some t)"
  using assms
proof (induction route arbitrary: cp ct)
  case Nil
  then show ?case by simp
next
  case (Cons batch route)
  show ?case
  proof (cases "batch = []")
    case True
    then show ?thesis by (simp add: batch_step_empty)
  next
    case False
    with Cons.prems have "[] \<in> set route" by auto
    then show ?thesis
      using Cons.IH by (simp split: sum.splits step.splits)
  qed
qed

lemma plants_loop_empty_batch:
  assumes "[] \<in> set (concat routes)"
  shows "plants_loop locations capacity lifespan rate rf chk plant routes makespan
           \<noteq> Inr (Makespan m)"
  using assms
proof (induction routes arbitrary: plant makespan)
  case Nil
  then show ?case by simp
next
  case (Cons route routes)
  show ?case
  proof (cases "[] \<in> set route")
    case True
    then show ?thesis
      using route_loop_empty_batch [of route locations capacity lifespan rate rf chk "int plant" 0 0]
      by (simp split: sum.splits option.splits)
  next
    case False
    with Cons.prems have "[] \<in> set (concat routes)" by auto
    then show ?thesis
      using Cons.IH by (simp split: sum.splits option.splits)
  qed
qed

lemma batch_step_example:
  "batch_step [plant0, cust34] 20 100 1 None chk 0 [1] 0 0 = Inr (Next 10 20)"
  by (simp add: batch_step_def batch_demand_example outbound_example subscript_last
        travel_example EPS_VALUE_def del: batch_demand.simps)

section \<open>Evaluation without the feasibility check\<close>

text \<open>
  C2, as amended. The claim reads: with the feasibility check disabled, a capacity or
  lifespan violation met during the simulation still makes \<^verbatim>\<open>evaluate\<close> return the
  infeasibility sentinel. The two tests are guarded by \<^verbatim>\<open>check_feasibility\<close>, so the
  opposite holds: with the check disabled \<^verbatim>\<open>evaluate\<close> never returns the sentinel; it
  returns a makespan or raises. The second theorem evaluates two violating inputs, one
  over the capacity and one over the lifespan, on which a makespan is returned.
\<close>

theorem unchecked_never_infeasible:
  "evaluate locations capacity lifespan rate solution rf False \<noteq> Inr INF_RETURN"
  by (simp add: evaluate_def plants_loop_unchecked)

theorem unchecked_violation_counterexample:
  "batch_demand [plant0, cust34] [1] = Inr 10 \<and> (5::real) + EPS_VALUE \<le> 10 \<and>
   evaluate [plant0, cust34] 5 100 1 [[[1]]] None False = Inr (Makespan 20) \<and>
   outbound_time [plant0, cust34] 0 [1] None = Inr 5 \<and> (2::real) + EPS_VALUE \<le> 5 \<and>
   evaluate [plant0, cust34] 20 2 1 [[[1]]] None False = Inr (Makespan 20)"
proof -
  have "batch_step [plant0, cust34] 5 100 1 None False 0 [1] 0 0 = Inr (Next 10 20)"
    "batch_step [plant0, cust34] 20 2 1 None False 0 [1] 0 0 = Inr (Next 10 20)"
    by (simp_all add: batch_step_def batch_demand_example outbound_example subscript_last
          travel_example del: batch_demand.simps)
  then show ?thesis
    by (simp add: evaluate_def batch_demand_example outbound_example EPS_VALUE_def
          del: batch_demand.simps)
qed

section \<open>Empty batches\<close>

text \<open>
  C10, as amended. The claim reads: a solution with an empty batch always makes
  \<^verbatim>\<open>evaluate\<close> abort with a fault. What holds: such a solution never yields a makespan;
  with the feasibility check disabled \<^verbatim>\<open>evaluate\<close> always raises; and the step of an
  empty batch raises \<^verbatim>\<open>IndexError\<close> at \<^verbatim>\<open>batch[0]\<close>, unless the rate is zero
  (\<^verbatim>\<open>ZeroDivisionError\<close> comes first) or the check is enabled and
  \<open>capacity + \<epsilon> \<le> 0\<close> (the sentinel is returned first). With the check enabled the
  sentinel is returned instead of a fault whenever the coverage test, or the capacity or
  lifespan test of an earlier batch, fires before the empty batch is indexed; the last
  theorem evaluates two such inputs.
\<close>

theorem empty_batch_no_makespan:
  assumes "[] \<in> set (concat solution)"
  shows "(\<forall>m. evaluate locations capacity lifespan rate solution rf chk \<noteq> Inr (Makespan m)) \<and>
    (\<exists>e. evaluate locations capacity lifespan rate solution rf False = Inl e) \<and>
    (\<forall>plant cp ct. batch_step locations capacity lifespan rate rf chk plant [] cp ct =
       (if chk \<and> capacity + EPS_VALUE \<le> 0 then Inr Return_INF
        else if rate = 0 then Inl ZeroDivisionError
        else Inl IndexError))"
proof -
  have a: "evaluate locations capacity lifespan rate solution rf c \<noteq> Inr (Makespan m)" for c m
    using plants_loop_empty_batch [OF assms] by (simp add: evaluate_def)
  have "\<exists>e. evaluate locations capacity lifespan rate solution rf False = Inl e"
  proof (cases "evaluate locations capacity lifespan rate solution rf False")
    case (Inl e)
    then show ?thesis by simp
  next
    case (Inr r)
    then show ?thesis
      using a [of False] plants_loop_unchecked [of locations capacity lifespan rate rf 0 solution 0]
      by (cases r) (auto simp: evaluate_def)
  qed
  with a show ?thesis
    by (simp add: batch_step_empty)
qed

theorem empty_batch_no_makespan_witness:
  "[] \<in> set (concat [[[1::int], []]]) \<and>
   (\<exists>e. evaluate [plant0, cust34] 20 100 1 [[[1], []]] None False = Inl e) \<and>
   check_customers [plant0, cust34] [[[1], []]] \<and>
   evaluate [plant0, cust34] 20 100 1 [[[1], []]] None True = Inl IndexError"
  using empty_batch_no_makespan [where solution = "[[[1], []]]" and locations = "[plant0, cust34]"
          and capacity = 20 and lifespan = 100 and rate = 1 and rf = None and chk = True]
  by (simp add: evaluate_def check_customers_def visited_customers_def batch_step_example
        batch_step_empty EPS_VALUE_def)

theorem empty_batch_counterexample:
  "[] \<in> set (concat [[[]::int list]]) \<and>
   evaluate [plant0, cust34] 20 100 1 [[[]]] None True = Inr INF_RETURN \<and>
   [] \<in> set (concat [[[1::int], []]]) \<and>
   check_customers [plant0, cust34] [[[1], []]] \<and>
   evaluate [plant0, cust34] 5 100 1 [[[1], []]] None True = Inr INF_RETURN"
proof -
  have "batch_step [plant0, cust34] 5 100 1 None True 0 [1] 0 0 = Inr Return_INF"
    by (simp add: batch_step_def batch_demand_example EPS_VALUE_def del: batch_demand.simps)
  then show ?thesis
    by (simp add: evaluate_def check_customers_def visited_customers_def)
qed

section \<open>The coverage check\<close>

lemma customers_in_order_iff:
  "customers_in_order vs k \<longleftrightarrow> vs = [k..k + int (length vs) - 1]"
proof (induction vs arbitrary: k)
  case Nil
  show ?case by simp
next
  case (Cons v vs)
  have "[k..k + int (length (v # vs)) - 1] = k # [k + 1..k + 1 + int (length vs) - 1]"
    by (subst upto_rec1) (simp_all add: algebra_simps)
  then show ?case
    using Cons.IH [of "k + 1"] by auto
qed

lemma check_customers_sorted:
  assumes "length solution \<le> length locations"
  shows "check_customers locations solution \<longleftrightarrow>
    visited_customers solution = [int (length solution)..int (length locations) - 1]"
proof -
  let ?vs = "visited_customers solution"
  let ?n = "int (length solution)"
  let ?L = "int (length locations)"
  have "check_customers locations solution \<longleftrightarrow>
      int (length ?vs) = ?L - ?n \<and> ?vs = [?n..?n + int (length ?vs) - 1]"
    by (simp add: check_customers_def Let_def customers_in_order_iff)
  also have "\<dots> \<longleftrightarrow> ?vs = [?n..?L - 1]"
  proof
    assume a: "int (length ?vs) = ?L - ?n \<and> ?vs = [?n..?n + int (length ?vs) - 1]"
    then have h: "?n + int (length ?vs) - 1 = ?L - 1" by linarith
    from a have "?vs = [?n..?n + int (length ?vs) - 1]" by (rule conjunct2)
    then show "?vs = [?n..?L - 1]" by (simp only: h)
  next
    assume a: "?vs = [?n..?L - 1]"
    have "int (length [?n..?L - 1]) = ?L - ?n"
      using assms by simp
    then have l: "int (length ?vs) = ?L - ?n"
      by (simp only: a)
    then have h: "?n + int (length ?vs) - 1 = ?L - 1" by linarith
    have "[?n..?L - 1] = [?n..?n + int (length ?vs) - 1]" by (simp only: h)
    with a have "?vs = [?n..?n + int (length ?vs) - 1]" by (rule trans)
    with l show "int (length ?vs) = ?L - ?n \<and> ?vs = [?n..?n + int (length ?vs) - 1]"
      by (rule conjI)
  qed
  finally show ?thesis .
qed

lemma check_customers_mset:
  assumes "length solution \<le> length locations"
  shows "check_customers locations solution \<longleftrightarrow>
    mset (concat (concat solution)) = mset [int (length solution)..int (length locations) - 1]"
proof -
  have "visited_customers solution = [int (length solution)..int (length locations) - 1] \<longleftrightarrow>
    mset (concat (concat solution)) = mset [int (length solution)..int (length locations) - 1]"
    (is "?vs = ?r \<longleftrightarrow> ?m")
  proof
    assume "?vs = ?r"
    then have "mset ?vs = mset ?r" by simp
    then show ?m by (simp add: visited_customers_def)
  next
    assume ?m
    then have "mset ?r = mset (concat (concat solution))" by simp
    then have "sort (concat (concat solution)) = ?r"
      by (rule properties_for_sort) simp
    then show "?vs = ?r" by (simp add: visited_customers_def)
  qed
  with check_customers_sorted [OF assms] show ?thesis by simp
qed

lemma evaluate_uncovered:
  "\<not> check_customers locations solution \<Longrightarrow>
   evaluate locations capacity lifespan rate solution rf True = Inr INF_RETURN"
  by (simp add: evaluate_def)

text \<open>
  C3. For an instance and a solution with one route per plant (so that the solution has
  no more routes than the instance has locations), the coverage check passes exactly when
  the customers of all batches of all routes, taken with their multiplicities, are the
  indices \<open>nplants, \<dots>, len(instance) - 1\<close>, each once. When the check fails,
  \<^verbatim>\<open>evaluate\<close> with the feasibility check enabled returns the infeasibility sentinel;
  in particular it does so for every solution obtained from a passing one by removing one
  customer or by adding one customer a second time, and for every solution that visits an
  index below \<open>nplants\<close> or beyond the last location.
\<close>

theorem coverage_check_exact:
  assumes "length solution \<le> length locations"
  shows "(check_customers locations solution \<longleftrightarrow>
      mset (concat (concat solution)) =
        mset [int (length solution)..int (length locations) - 1]) \<and>
    (\<not> check_customers locations solution \<longrightarrow>
      evaluate locations capacity lifespan rate solution rf True = Inr INF_RETURN) \<and>
    (check_customers locations solution \<longrightarrow>
      (\<forall>solution' c. length solution' = length solution \<and>
         (c \<in> set (concat (concat solution)) \<and>
            mset (concat (concat solution')) = mset (concat (concat solution)) - {#c#} \<or>
          mset (concat (concat solution')) = add_mset c (mset (concat (concat solution))))
         \<longrightarrow> evaluate locations capacity lifespan rate solution' rf True = Inr INF_RETURN)) \<and>
    ((\<exists>c \<in> set (concat (concat solution)).
        c < int (length solution) \<or> int (length locations) \<le> c) \<longrightarrow>
      evaluate locations capacity lifespan rate solution rf True = Inr INF_RETURN)"
proof -
  let ?r = "mset [int (length solution)..int (length locations) - 1]"
  let ?m = "mset (concat (concat solution))"
  note iff = check_customers_mset [OF assms]
  have changed: "evaluate locations capacity lifespan rate solution' rf True = Inr INF_RETURN"
    if ok: "check_customers locations solution"
      and len: "length solution' = length solution"
      and ch: "c \<in> set (concat (concat solution)) \<and>
            mset (concat (concat solution')) = ?m - {#c#} \<or>
          mset (concat (concat solution')) = add_mset c ?m"
    for solution' c
  proof -
    have "mset (concat (concat solution')) \<noteq> ?m"
    proof
      assume e: "mset (concat (concat solution')) = ?m"
      from ch show False
      proof
        assume "c \<in> set (concat (concat solution)) \<and>
          mset (concat (concat solution')) = ?m - {#c#}"
        then have "add_mset c (mset (concat (concat solution'))) = ?m" by simp
        then have "size (add_mset c ?m) = size ?m" by (simp only: e)
        then show False by simp
      next
        assume "mset (concat (concat solution')) = add_mset c ?m"
        then have "size (add_mset c ?m) = size ?m" by (simp only: e)
        then show False by simp
      qed
    qed
    moreover from ok iff have "?m = ?r" by simp
    ultimately have "mset (concat (concat solution')) \<noteq> ?r"
      by simp
    then have "mset (concat (concat solution')) \<noteq>
        mset [int (length solution')..int (length locations) - 1]"
      unfolding len .
    then have "\<not> check_customers locations solution'"
      using check_customers_mset [of solution' locations] assms len by simp
    then show ?thesis by (rule evaluate_uncovered)
  qed
  have range: "evaluate locations capacity lifespan rate solution rf True = Inr INF_RETURN"
    if "c \<in> set (concat (concat solution))"
      and "c < int (length solution) \<or> int (length locations) \<le> c" for c
  proof -
    from that have "c \<in> set_mset ?m" "c \<notin> set_mset ?r" by auto
    then have "set_mset ?m \<noteq> set_mset ?r" by blast
    then have "?m \<noteq> ?r" by metis
    with iff show ?thesis by (simp add: evaluate_uncovered)
  qed
  show ?thesis
  proof (intro conjI impI allI)
    show "check_customers locations solution \<longleftrightarrow> ?m = ?r" by (rule iff)
  next
    assume "\<not> check_customers locations solution"
    then show "evaluate locations capacity lifespan rate solution rf True = Inr INF_RETURN"
      by (rule evaluate_uncovered)
  next
    fix solution' c
    assume "check_customers locations solution"
      and "length solution' = length solution \<and>
         (c \<in> set (concat (concat solution)) \<and>
            mset (concat (concat solution')) = ?m - {#c#} \<or>
          mset (concat (concat solution')) = add_mset c ?m)"
    then show "evaluate locations capacity lifespan rate solution' rf True = Inr INF_RETURN"
      using changed [of solution' c] by blast
  next
    assume "\<exists>c \<in> set (concat (concat solution)).
        c < int (length solution) \<or> int (length locations) \<le> c"
    then show "evaluate locations capacity lifespan rate solution rf True = Inr INF_RETURN"
      using range by blast
  qed
qed

theorem coverage_check_exact_witness:
  "length [[[1::int]]] \<le> length [plant0, cust34] \<and>
   check_customers [plant0, cust34] [[[1]]] \<and>
   mset (concat (concat [[[1::int]]])) = mset [int (length [[[1::int]]])..int (length [plant0, cust34]) - 1] \<and>
   evaluate [plant0, cust34] 20 100 1 [[[]]] None True = Inr INF_RETURN \<and>
   evaluate [plant0, cust34] 20 100 1 [[[1, 1]]] None True = Inr INF_RETURN"
proof -
  have l: "length [[[1::int]]] \<le> length [plant0, cust34]" by simp
  note t = coverage_check_exact [OF l, where capacity = 20 and lifespan = 100 and rate = 1
      and rf = None]
  from t check_customers_example have
    m: "mset (concat (concat [[[1::int]]])) =
          mset [int (length [[[1::int]]])..int (length [plant0, cust34]) - 1]"
    by blast
  from t check_customers_example have
    a: "length solution' = length [[[1::int]]] \<and>
         (c \<in> set (concat (concat [[[1::int]]])) \<and>
            mset (concat (concat solution')) = mset (concat (concat [[[1::int]]])) - {#c#} \<or>
          mset (concat (concat solution')) = add_mset c (mset (concat (concat [[[1::int]]]))))
       \<Longrightarrow> evaluate [plant0, cust34] 20 100 1 solution' None True = Inr INF_RETURN"
    for solution' c
    by blast
  have "evaluate [plant0, cust34] 20 100 1 [[[]]] None True = Inr INF_RETURN"
    by (rule a [where c = 1]) simp
  moreover have "evaluate [plant0, cust34] 20 100 1 [[[1, 1]]] None True = Inr INF_RETURN"
    by (rule a [where c = 1]) simp
  ultimately show ?thesis
    using l m check_customers_example by blast
qed

section \<open>Aggregation over the plants\<close>

lemma leg_nonneg: "nonneg_rounding rf \<Longrightarrow> 0 \<le> leg locations rf a b"
  by (auto simp: nonneg_rounding_def leg_def rounded_def euclidean_nonneg split: option.splits)

lemma outbound_legs_nonneg:
  "nonneg_rounding rf \<Longrightarrow> 0 \<le> outbound_legs locations rf plant batch"
  unfolding outbound_legs_def
  by (rule sum_list_nonneg) (auto simp: leg_nonneg)

lemma batch_step_later:
  assumes "nonneg_rounding rf"
    and "batch_step locations capacity lifespan rate rf chk plant batch cp ct = Inr (Next np nt)"
  shows "ct \<le> nt"
proof -
  let ?o = "outbound_legs locations rf plant batch"
  let ?b = "leg locations rf (last batch) plant"
  from assms(2) obtain d where "nt = max ct (cp + d / rate) + (?o + ?b)"
    by (auto simp: batch_step_eq split: sum.splits if_splits)
  moreover have "0 \<le> ?o" "0 \<le> ?b"
    using assms(1) by (simp_all add: outbound_legs_nonneg leg_nonneg)
  ultimately show ?thesis by simp
qed

lemma route_loop_later:
  assumes "nonneg_rounding rf"
  shows "route_loop locations capacity lifespan rate rf chk plant route cp ct = Inr (Some t)
    \<Longrightarrow> ct \<le> t"
proof (induction route arbitrary: cp ct)
  case Nil
  then show ?case by simp
next
  case (Cons batch route)
  from Cons.prems obtain np nt where
    s: "batch_step locations capacity lifespan rate rf chk plant batch cp ct = Inr (Next np nt)"
    and r: "route_loop locations capacity lifespan rate rf chk plant route np nt = Inr (Some t)"
    by (auto split: sum.splits step.splits)
  from batch_step_later [OF assms s] Cons.IH [OF r] show ?case by simp
qed

lemma plants_loop_Makespan:
  "plants_loop locations capacity lifespan rate rf chk plant routes makespan = Inr (Makespan m)
   \<Longrightarrow> \<exists>ts. length ts = length routes \<and>
        (\<forall>i<length routes.
           route_loop locations capacity lifespan rate rf chk (int (plant + i)) (routes ! i) 0 0
             = Inr (Some (ts ! i))) \<and>
        m = Max (set (makespan # ts))"
proof (induction routes arbitrary: plant makespan)
  case Nil
  then show ?case by simp
next
  case (Cons route routes)
  from Cons.prems obtain t where
    r: "route_loop locations capacity lifespan rate rf chk (int plant) route 0 0 = Inr (Some t)"
    and p: "plants_loop locations capacity lifespan rate rf chk (Suc plant) routes
              (max makespan t) = Inr (Makespan m)"
    by (auto split: sum.splits option.splits)
  from Cons.IH [OF p] obtain ts where l: "length ts = length routes"
    and a: "\<forall>i<length routes.
           route_loop locations capacity lifespan rate rf chk (int (Suc plant + i)) (routes ! i) 0 0
             = Inr (Some (ts ! i))"
    and m: "m = Max (set (max makespan t # ts))"
    by blast
  have "route_loop locations capacity lifespan rate rf chk (int (plant + i))
          ((route # routes) ! i) 0 0 = Inr (Some ((t # ts) ! i))"
    if "i < length (route # routes)" for i
  proof (cases i)
    case 0
    with r show ?thesis by simp
  next
    case (Suc j)
    with that a show ?thesis by simp
  qed
  moreover have "m = Max (set (makespan # t # ts))"
    unfolding m by (cases "ts = []") (simp_all add: max.assoc)
  ultimately show ?case
    using l by (intro exI [of _ "t # ts"]) simp
qed

lemma located_two_plants:
  "located [plant0, plant68, cust34, cust20] 0" "located [plant0, plant68, cust34, cust20] 1"
  "located [plant0, plant68, cust34, cust20] 2" "located [plant0, plant68, cust34, cust20] 3"
  by (simp_all add: located_def plant0_def plant68_def cust34_def cust20_def)

lemma leg_two_plants:
  "leg [plant0, plant68, cust34, cust20] None 0 2 = 5"
  "leg [plant0, plant68, cust34, cust20] None 2 0 = 5"
  "leg [plant0, plant68, cust34, cust20] None 1 3 = 5"
  "leg [plant0, plant68, cust34, cust20] None 3 1 = 5"
  by (simp_all add: leg_def rounded_def euclidean_sqrt plant0_def plant68_def cust34_def
        cust20_def sqrt_25)

lemma batch_demand_two_plants:
  "batch_demand [plant0, plant68, cust34, cust20] [2] = Inr 10"
  "batch_demand [plant0, plant68, cust34, cust20] [3] = Inr 20"
  by (simp_all add: subscript_def item_def cust34_def cust20_def)

lemma batch_step_two_plants:
  "batch_step [plant0, plant68, cust34, cust20] 20 100 1 None True 0 [2] 0 0 = Inr (Next 10 20)"
  "batch_step [plant0, plant68, cust34, cust20] 20 100 1 None True 1 [3] 0 0 = Inr (Next 20 30)"
  by (simp_all add: batch_step_eq batch_demand_two_plants located_two_plants outbound_legs_def
        leg_two_plants EPS_VALUE_def del: batch_demand.simps)

lemma evaluate_two_plants:
  "evaluate [plant0, plant68, cust34, cust20] 20 100 1 [[[2]], [[3]]] None True
     = Inr (Makespan 30)"
  by (simp add: evaluate_def check_customers_def visited_customers_def batch_step_two_plants)

text \<open>
  C7. When \<^verbatim>\<open>evaluate\<close> returns a makespan, every plant's route has been simulated
  to its end, and the makespan is the maximum of the final \<^verbatim>\<open>curr_t_finish\<close> of the
  plants, not their sum. The running maximum starts at 0, so in general the value is the
  maximum of 0 and the finishing times; with at least one plant and travel times that
  are not negative (no rounding function, or one that keeps distances non-negative) all
  finishing times are at least 0 and the makespan is their maximum.
\<close>

theorem makespan_is_maximum:
  assumes "evaluate locations capacity lifespan rate solution rf chk = Inr (Makespan m)"
  shows "\<exists>ts. length ts = length solution \<and>
    (\<forall>i<length solution.
       route_loop locations capacity lifespan rate rf chk (int i) (solution ! i) 0 0
         = Inr (Some (ts ! i))) \<and>
    m = Max (set (0 # ts)) \<and>
    (solution \<noteq> [] \<and> nonneg_rounding rf \<longrightarrow> m = Max (set ts))"
proof -
  from assms have "plants_loop locations capacity lifespan rate rf chk 0 solution 0
      = Inr (Makespan m)"
    by (simp add: evaluate_def split: if_splits)
  from plants_loop_Makespan [OF this] obtain ts where l: "length ts = length solution"
    and a: "\<forall>i<length solution.
       route_loop locations capacity lifespan rate rf chk (int i) (solution ! i) 0 0
         = Inr (Some (ts ! i))"
    and m: "m = Max (set (0 # ts))"
    by auto
  have "m = Max (set ts)" if ne: "solution \<noteq> []" and nn: "nonneg_rounding rf"
  proof -
    have "0 \<le> t" if "t \<in> set ts" for t
    proof -
      from that obtain i where "i < length ts" "ts ! i = t"
        by (auto simp: in_set_conv_nth)
      with a l have "route_loop locations capacity lifespan rate rf chk (int i) (solution ! i) 0 0
         = Inr (Some t)" by simp
      from route_loop_later [OF nn this] show ?thesis .
    qed
    moreover from ne l have "ts \<noteq> []" by auto
    ultimately have "0 \<le> Max (set ts)"
      by (metis List.finite_set Max_in set_empty)
    with \<open>ts \<noteq> []\<close> show ?thesis
      unfolding m by (simp add: max_def)
  qed
  with l a m show ?thesis by blast
qed

theorem makespan_is_maximum_witness:
  "evaluate [plant0, plant68, cust34, cust20] 20 100 1 [[[2]], [[3]]] None True
     = Inr (Makespan 30) \<and>
   [[[2::int]], [[3]]] \<noteq> [] \<and> nonneg_rounding None \<and>
   (\<exists>ts. length ts = length [[[2::int]], [[3]]] \<and>
      (\<forall>i<length [[[2::int]], [[3]]].
         route_loop [plant0, plant68, cust34, cust20] 20 100 1 None True (int i)
           ([[[2]], [[3]]] ! i) 0 0 = Inr (Some (ts ! i))) \<and>
      30 = Max (set ts))"
proof -
  have n: "nonneg_rounding None" by (simp add: nonneg_rounding_def)
  from makespan_is_maximum [OF evaluate_two_plants] n show ?thesis
    using evaluate_two_plants by blast
qed

section \<open>Doubling the rate\<close>

lemma subscript_in_set: "subscript xs i = Inr x \<Longrightarrow> x \<in> set xs"
  by (auto simp: subscript_def split: if_splits)

lemma batch_demand_nonneg:
  assumes "nonneg_demands locations"
  shows "batch_demand locations batch = Inr d \<Longrightarrow> 0 \<le> d"
proof (induction batch arbitrary: d)
  case Nil
  then show ?case by simp
next
  case (Cons c cs)
  from Cons.prems obtain l x s where l: "subscript locations c = Inr l"
    and x: "item l ''demand'' = Inr x"
    and s: "batch_demand locations cs = Inr s"
    and d: "d = x + s"
    by (auto split: sum.splits)
  from l have "l \<in> set locations" by (rule subscript_in_set)
  moreover from x have "l ''demand'' = Some x"
    by (simp add: item_def split: option.splits)
  ultimately have "0 \<le> x"
    using assms by (auto simp: nonneg_demands_def list_all_iff)
  with Cons.IH [OF s] d show ?case by simp
qed

lemma batch_step_faster:
  assumes nn: "nonneg_demands locations" and r: "0 < rate"
    and le: "cp' \<le> cp" "ct' \<le> ct"
    and s: "batch_step locations capacity lifespan rate rf chk plant batch cp ct
              = Inr (Next np nt)"
  shows "\<exists>np' nt'.
    batch_step locations capacity lifespan (2 * rate) rf chk plant batch cp' ct'
      = Inr (Next np' nt') \<and> np' \<le> np \<and> nt' \<le> nt"
proof -
  let ?o = "outbound_legs locations rf plant batch"
  let ?b = "leg locations rf (last batch) plant"
  from s obtain d where d: "batch_demand locations batch = Inr d"
    by (cases "batch_demand locations batch") (simp_all add: batch_step_eq)
  from s d have c: "\<not> (chk \<and> capacity + EPS_VALUE \<le> d)" "batch \<noteq> []"
    "located locations plant" "list_all (located locations) batch"
    "\<not> (chk \<and> lifespan + EPS_VALUE \<le> ?o)"
    and np: "np = max (cp + d / rate) (ct - max 0 (lifespan - ?o))"
    and nt: "nt = max ct (cp + d / rate) + (?o + ?b)"
    by (simp_all add: batch_step_eq split: if_splits)
  have "0 \<le> d" using nn d by (rule batch_demand_nonneg)
  with r have h: "d / (2 * rate) \<le> d / rate"
    by (simp add: field_simps)
  have "batch_step locations capacity lifespan (2 * rate) rf chk plant batch cp' ct' =
     Inr (Next (max (cp' + d / (2 * rate)) (ct' - max 0 (lifespan - ?o)))
               (max ct' (cp' + d / (2 * rate)) + (?o + ?b)))"
    using d c r by (simp add: batch_step_eq)
  moreover have "max (cp' + d / (2 * rate)) (ct' - max 0 (lifespan - ?o)) \<le> np"
    unfolding np using le h by (simp add: max_def)
  moreover have "max ct' (cp' + d / (2 * rate)) + (?o + ?b) \<le> nt"
    unfolding nt using le h by (simp add: max_def)
  ultimately show ?thesis by blast
qed

lemma route_loop_faster:
  assumes nn: "nonneg_demands locations" and r: "0 < rate"
  shows "cp' \<le> cp \<Longrightarrow> ct' \<le> ct \<Longrightarrow>
    route_loop locations capacity lifespan rate rf chk plant route cp ct = Inr (Some t) \<Longrightarrow>
    \<exists>t'. route_loop locations capacity lifespan (2 * rate) rf chk plant route cp' ct'
            = Inr (Some t') \<and> t' \<le> t"
proof (induction route arbitrary: cp ct cp' ct')
  case Nil
  then show ?case by simp
next
  case (Cons batch route)
  from Cons.prems(3) obtain np nt where
    s: "batch_step locations capacity lifespan rate rf chk plant batch cp ct = Inr (Next np nt)"
    and l: "route_loop locations capacity lifespan rate rf chk plant route np nt = Inr (Some t)"
    by (auto split: sum.splits step.splits)
  from batch_step_faster [OF nn r Cons.prems(1,2) s] obtain np' nt' where
    s': "batch_step locations capacity lifespan (2 * rate) rf chk plant batch cp' ct'
           = Inr (Next np' nt')"
    and le: "np' \<le> np" "nt' \<le> nt"
    by blast
  from Cons.IH [OF le l] s' show ?case by simp
qed

lemma batch_step_midpoint:
  assumes nn: "nonneg_rounding rf"
    and z: "zp \<le> zt" "zt \<le> ct"
    and h: "cp' \<le> (zp + cp) / 2" "ct' \<le> (zt + ct) / 2"
    and s: "batch_step locations capacity lifespan rate rf chk plant batch cp ct
              = Inr (Next np nt)"
  shows "\<exists>np' nt' zp' zt'.
    batch_step locations capacity lifespan (2 * rate) rf chk plant batch cp' ct'
      = Inr (Next np' nt') \<and>
    zp' \<le> zt' \<and> zt' \<le> nt \<and> np' \<le> (zp' + np) / 2 \<and> nt' \<le> (zt' + nt) / 2"
proof -
  let ?o = "outbound_legs locations rf plant batch"
  let ?b = "leg locations rf (last batch) plant"
  let ?md = "max 0 (lifespan - ?o)"
  let ?p = "d / rate"
  from s obtain d where d: "batch_demand locations batch = Inr d"
    by (cases "batch_demand locations batch") (simp_all add: batch_step_eq)
  from s d have c: "\<not> (chk \<and> capacity + EPS_VALUE \<le> d)" "rate \<noteq> 0" "batch \<noteq> []"
    "located locations plant" "list_all (located locations) batch"
    "\<not> (chk \<and> lifespan + EPS_VALUE \<le> ?o)"
    and np: "np = max (cp + d / rate) (ct - ?md)"
    and nt: "nt = max ct (cp + d / rate) + (?o + ?b)"
    by (simp_all add: batch_step_eq split: if_splits)
  have f: "0 \<le> ?o + ?b"
    using nn by (simp add: outbound_legs_nonneg leg_nonneg)
  have half: "d / (2 * rate) = (d / rate) / 2"
    by simp
  define np' where "np' = max (cp' + d / (2 * rate)) (ct' - ?md)"
  define nt' where "nt' = max ct' (cp' + d / (2 * rate)) + (?o + ?b)"
  define zp' where "zp' = max zp (zt - ?md)"
  define zt' where "zt' = zt + (?o + ?b)"
  have "batch_step locations capacity lifespan (2 * rate) rf chk plant batch cp' ct' =
     Inr (Next np' nt')"
    using d c by (simp add: batch_step_eq np'_def nt'_def)
  moreover have "zp' \<le> zt'"
    unfolding zp'_def zt'_def using z f by (simp add: max_def)
  moreover have "zt' \<le> nt"
    unfolding zt'_def nt using z by (simp add: max_def)
  moreover have "np' \<le> (zp' + np) / 2"
    unfolding np'_def zp'_def np half using h by (simp add: max_def field_simps)
  moreover have "nt' \<le> (zt' + nt) / 2"
    unfolding nt'_def zt'_def nt half using h z by (simp add: max_def field_simps)
  ultimately show ?thesis by blast
qed


lemma route_loop_midpoint:
  assumes nn: "nonneg_rounding rf"
  shows "zp \<le> zt \<Longrightarrow> zt \<le> ct \<Longrightarrow> cp' \<le> (zp + cp) / 2 \<Longrightarrow> ct' \<le> (zt + ct) / 2 \<Longrightarrow>
    route_loop locations capacity lifespan rate rf chk plant route cp ct = Inr (Some t) \<Longrightarrow>
    \<exists>t'. route_loop locations capacity lifespan (2 * rate) rf chk plant route cp' ct'
            = Inr (Some t') \<and> t' \<le> t"
proof (induction route arbitrary: cp ct cp' ct' zp zt)
  case Nil
  then show ?case by simp
next
  case (Cons batch route)
  from Cons.prems(5) obtain np nt where
    s: "batch_step locations capacity lifespan rate rf chk plant batch cp ct = Inr (Next np nt)"
    and l: "route_loop locations capacity lifespan rate rf chk plant route np nt = Inr (Some t)"
    by (auto split: sum.splits step.splits)
  from batch_step_midpoint [OF nn Cons.prems(1-4) s] obtain np' nt' zp' zt' where
    s': "batch_step locations capacity lifespan (2 * rate) rf chk plant batch cp' ct'
           = Inr (Next np' nt')"
    and z: "zp' \<le> zt'" "zt' \<le> nt" "np' \<le> (zp' + np) / 2" "nt' \<le> (zt' + nt) / 2"
    by blast
  from Cons.IH [OF z l] s' show ?case by simp
qed

lemma plants_loop_not_slower:
  assumes routes: "\<And>plant route t.
      route_loop locations capacity lifespan rate rf chk plant route 0 0 = Inr (Some t) \<Longrightarrow>
      \<exists>t'. route_loop locations capacity lifespan rate' rf chk plant route 0 0 = Inr (Some t')
             \<and> t' \<le> t"
  shows "mk' \<le> mk \<Longrightarrow>
    plants_loop locations capacity lifespan rate rf chk plant routes mk = Inr (Makespan m) \<Longrightarrow>
    \<exists>m'. plants_loop locations capacity lifespan rate' rf chk plant routes mk'
            = Inr (Makespan m') \<and> m' \<le> m"
proof (induction routes arbitrary: plant mk mk')
  case Nil
  then show ?case by simp
next
  case (Cons route routes)
  from Cons.prems(2) obtain t where
    l: "route_loop locations capacity lifespan rate rf chk (int plant) route 0 0 = Inr (Some t)"
    and p: "plants_loop locations capacity lifespan rate rf chk (Suc plant) routes (max mk t)
              = Inr (Makespan m)"
    by (auto split: sum.splits option.splits)
  from routes [OF l] obtain t' where
    l': "route_loop locations capacity lifespan rate' rf chk (int plant) route 0 0
           = Inr (Some t')"
    and le: "t' \<le> t"
    by auto
  from Cons.prems(1) le have "max mk' t' \<le> max mk t" by (simp add: max_def)
  from Cons.IH [OF this p] l' show ?case by simp
qed

lemma evaluate_example:
  "evaluate [plant0, cust34] 20 100 1 [[[1]]] None True = Inr (Makespan 20)"
  by (simp add: evaluate_def check_customers_example batch_step_example)

lemma nonneg_demands_example: "nonneg_demands [plant0, cust34]"
  by (simp add: nonneg_demands_def plant0_def cust34_def)

text \<open>
  C6. When \<^verbatim>\<open>evaluate\<close> returns a makespan, it also returns one for twice the rate,
  all other arguments unchanged, and that makespan is not larger. This holds for every
  instance of the data model (positive rate, no negative demand), whatever the rounding
  function, because every production time shrinks or stays; and it holds for every
  instance and every rate when the travel times are not negative (no rounding function,
  or one that keeps distances non-negative), because the finishing time of a route is
  then a convex function of the reciprocal of the rate that is smallest at 0.
\<close>

theorem rate_doubling_not_slower:
  assumes "0 < rate \<and> nonneg_demands locations \<or> nonneg_rounding rf"
    and "evaluate locations capacity lifespan rate solution rf chk = Inr (Makespan m)"
  shows "\<exists>m'. evaluate locations capacity lifespan (2 * rate) solution rf chk
                 = Inr (Makespan m') \<and> m' \<le> m"
proof -
  from assms(2) have c: "\<not> (chk \<and> \<not> check_customers locations solution)"
    and p: "plants_loop locations capacity lifespan rate rf chk 0 solution 0 = Inr (Makespan m)"
    by (simp_all add: evaluate_def split: if_splits)
  have r: "\<exists>t'. route_loop locations capacity lifespan (2 * rate) rf chk plant route 0 0
           = Inr (Some t') \<and> t' \<le> t"
    if l: "route_loop locations capacity lifespan rate rf chk plant route 0 0 = Inr (Some t)"
    for plant route t
    using assms(1)
  proof
    assume "0 < rate \<and> nonneg_demands locations"
    then show ?thesis
      using route_loop_faster [of locations rate 0 0 0 0, OF _ _ _ _ l] by simp
  next
    assume "nonneg_rounding rf"
    then show ?thesis
      using route_loop_midpoint [of rf 0 0 0 0 0 0, OF _ _ _ _ _ l] by simp
  qed
  have "\<exists>m'. plants_loop locations capacity lifespan (2 * rate) rf chk 0 solution 0
            = Inr (Makespan m') \<and> m' \<le> m"
    by (rule plants_loop_not_slower [where mk = 0 and rate = rate]) (use r p in simp_all)
  with c show ?thesis
    by (simp add: evaluate_def)
qed

theorem rate_doubling_not_slower_witness:
  "(0::real) < 1 \<and> nonneg_demands [plant0, cust34] \<and>
   evaluate [plant0, cust34] 20 100 1 [[[1]]] None True = Inr (Makespan 20) \<and>
   (\<exists>m'. evaluate [plant0, cust34] 20 100 (2 * 1) [[[1]]] None True = Inr (Makespan m') \<and>
      m' \<le> 20)"
  using rate_doubling_not_slower [where rate = 1 and locations = "[plant0, cust34]"
          and capacity = 20 and lifespan = 100 and solution = "[[[1]]]" and rf = None
          and chk = True and m = 20]
  by (simp add: nonneg_demands_example evaluate_example)

section \<open>The tolerance band in double precision\<close>

lemma round_even_near:
  assumes "of_int m \<le> y" "y < of_int m + 1 / 2"
  shows "round_even y = m"
proof -
  from assms have "\<lfloor>y\<rfloor> = m" by linarith
  with assms show ?thesis by (simp add: round_even_def Let_def)
qed

lemma round_even_of_int: "round_even (of_int m) = m"
  by (rule round_even_near) simp_all


lemma round_even_upper: "of_int (round_even y) \<le> y + 1 / 2"
  unfolding round_even_def Let_def by (auto; linarith)























end
